theory Spec2Isabelle
  imports Main "HOL-Library.Word"
begin

section \<open>JavaScript strings\<close>

text \<open>
  A JavaScript string is a sequence of UTF-16 code units and \<open>s.length\<close> counts them, so a
  string is a list of 16-bit words. \<open>ascii\<close> embeds an ASCII literal.
\<close>

type_synonym jsstring = "16 word list"

definition ascii :: "string \<Rightarrow> jsstring" where
  "ascii s = map of_char s"

definition newline :: "16 word" where
  "newline = 0x0A"

section \<open>Rate limiter (telegram/webhook/route.ts)\<close>

text \<open>
  \<open>rateLimits\<close> is a process-wide \<open>Map<string, number[]>\<close>; the model passes it in and
  returns it updated. \<open>Date.now()\<close> is the extra argument \<open>now\<close> (integer milliseconds).
\<close>

type_synonym rateLimits = "jsstring \<rightharpoonup> int list"

definition RATE_LIMIT_WINDOW :: int where
  "RATE_LIMIT_WINDOW = 60000"

definition MAX_REQUESTS :: nat where
  "MAX_REQUESTS = 10"

text \<open>\<open>rateLimits.get(userId) || []\<close>: an array, even an empty one, is truthy.\<close>

definition userRequests :: "rateLimits \<Rightarrow> jsstring \<Rightarrow> int list" where
  "userRequests rl userId = (case rl userId of None \<Rightarrow> [] | Some ts \<Rightarrow> ts)"

definition validRequests :: "int \<Rightarrow> rateLimits \<Rightarrow> jsstring \<Rightarrow> int list" where
  "validRequests now rl userId =
     filter (\<lambda>t. now - t < RATE_LIMIT_WINDOW) (userRequests rl userId)"

definition checkRateLimit :: "int \<Rightarrow> jsstring \<Rightarrow> rateLimits \<Rightarrow> bool \<times> rateLimits" where
  "checkRateLimit now userId rl =
     (if length (validRequests now rl userId) \<ge> MAX_REQUESTS then (False, rl)
      else (True, rl(userId \<mapsto> validRequests now rl userId @ [now])))"

text \<open>
  A sequence of calls, each with its clock reading and identity, threaded through the map;
  the answers are returned in call order.
\<close>

fun runCalls :: "rateLimits \<Rightarrow> (int \<times> jsstring) list \<Rightarrow> bool list \<times> rateLimits" where
  "runCalls rl [] = ([], rl)"
| "runCalls rl ((now, userId) # cs) =
     (let r = checkRateLimit now userId rl; rs = runCalls (snd r) cs
      in (fst r # fst rs, snd rs))"

text \<open>The clock readings and the answers of the calls made for one identity.\<close>

definition timesFor :: "jsstring \<Rightarrow> (int \<times> jsstring) list \<Rightarrow> int list" where
  "timesFor u cs = map fst (filter (\<lambda>c. snd c = u) cs)"

definition answersFor :: "jsstring \<Rightarrow> (int \<times> jsstring) list \<Rightarrow> bool list \<Rightarrow> bool list" where
  "answersFor u cs oks = map snd (filter (\<lambda>p. snd (fst p) = u) (zip cs oks))"

text \<open>The invariant of the map: no identity holds more than \<open>MAX_REQUESTS\<close> timestamps.\<close>

definition bounded :: "rateLimits \<Rightarrow> bool" where
  "bounded rl = (\<forall>u ts. rl u = Some ts \<longrightarrow> length ts \<le> MAX_REQUESTS)"

section \<open>Splitting a message (telegram/webhook/route.ts)\<close>

text \<open>\<open>String.prototype.split\<close> with a separator of one code unit.\<close>

fun split :: "16 word \<Rightarrow> jsstring \<Rightarrow> jsstring list" where
  "split sep [] = [[]]"
| "split sep (c # cs) =
     (if c = sep then [] # split sep cs
      else (case split sep cs of [] \<Rightarrow> [[c]] | l # ls \<Rightarrow> (c # l) # ls))"

text \<open>\<open>Array.prototype.join\<close> on an array of strings.\<close>

fun join :: "jsstring list \<Rightarrow> jsstring \<Rightarrow> jsstring" where
  "join [] sep = []"
| "join [x] sep = x"
| "join (x # y # ys) sep = x @ sep @ join (y # ys) sep"

text \<open>
  The \<open>for (const line of lines)\<close> loop of \<open>splitMessage\<close>, on the pair
  \<open>(chunks, currentChunk)\<close>. An empty string is falsy, so \<open>currentChunk ? '\n' : ''\<close>
  tests for the empty string.
\<close>

fun splitLoop ::
  "int \<Rightarrow> jsstring list \<Rightarrow> jsstring \<Rightarrow> jsstring list \<Rightarrow> jsstring list \<times> jsstring" where
  "splitLoop maxLength chunks currentChunk [] = (chunks, currentChunk)"
| "splitLoop maxLength chunks currentChunk (line # lines) =
     (if int (length currentChunk) + int (length line) + 1 > maxLength
      then splitLoop maxLength (chunks @ [currentChunk]) line lines
      else splitLoop maxLength chunks
             (currentChunk @ (if currentChunk \<noteq> [] then [newline] else []) @ line) lines)"

definition splitMessage :: "jsstring \<Rightarrow> int \<Rightarrow> jsstring list" where
  "splitMessage text maxLength =
     (case splitLoop maxLength [] [] (split newline text) of
        (chunks, currentChunk) \<Rightarrow>
          if currentChunk \<noteq> [] then chunks @ [currentChunk] else chunks)"

text \<open>The lines of all chunks in order, and the lines of a list that are not empty.\<close>

definition linesOf :: "jsstring list \<Rightarrow> jsstring list" where
  "linesOf chunks = concat (map (split newline) chunks)"

definition nonblank :: "jsstring list \<Rightarrow> jsstring list" where
  "nonblank ls = filter (\<lambda>l. l \<noteq> []) ls"

section \<open>Assembling the context (chat route and telegram/webhook/route.ts)\<close>

text \<open>
  The decimal string of a non-negative integer, as a template literal prints \<open>i + 1\<close>, and
  \<open>Number.prototype.toString\<close> on an integer (JavaScript prints integers below
  \<open>10\<^sup>2\<^sup>1\<close> in full; array indices and Telegram ids are far below that).
\<close>

definition digit :: "nat \<Rightarrow> 16 word" where
  "digit d = of_nat (48 + d)"

function toStringNat :: "nat \<Rightarrow> jsstring" where
  "toStringNat n =
     (if n < 10 then [digit n] else toStringNat (n div 10) @ [digit (n mod 10)])"
  by pat_completeness auto
termination
  by (relation "measure id") auto

declare toStringNat.simps [simp del]

definition toString :: "int \<Rightarrow> jsstring" where
  "toString i = (if i < 0 then ascii ''-'' @ toStringNat (nat (- i)) else toStringNat (nat i))"

text \<open>
  A retrieved result, with the fields the handlers read (\<open>text'\<close> is the field \<open>text\<close>).
  The score is a floating-point number that is only ever printed, so its type is a
  parameter.
\<close>

record 's chunk =
  text' :: jsstring
  source :: jsstring
  score :: 's

text \<open>\<open>Array.prototype.map\<close> with the callback's index argument.\<close>

definition mapi :: "('a \<Rightarrow> nat \<Rightarrow> 'b) \<Rightarrow> 'a list \<Rightarrow> 'b list" where
  "mapi f xs = map (\<lambda>(x, i). f x i) (zip xs [0..<length xs])"

text \<open>
  Both handlers build the context with
  \<^verbatim>\<open>chunks.map((chunk, i) => `[${i + 1}] From "${chunk.source}":\n${chunk.text}`).join('\n\n---\n\n')\<close>
  and the system prompt with
  \<^verbatim>\<open>CYBERTANTRA_SYSTEM_PROMPT + '\n\nRetrieved lecture context:\n' + context\<close>.
\<close>

definition passage :: "'s chunk \<Rightarrow> nat \<Rightarrow> jsstring" where
  "passage chunk i =
     ascii ''['' @ toStringNat (i + 1) @ ascii ''] From \"'' @ source chunk @ ascii ''\":'' @
     [newline] @ text' chunk"

definition separator :: jsstring where
  "separator = [newline, newline] @ ascii ''---'' @ [newline, newline]"

definition buildContext :: "'s chunk list \<Rightarrow> jsstring" where
  "buildContext chunks = join (mapi passage chunks) separator"

definition contextHeader :: jsstring where
  "contextHeader = [newline, newline] @ ascii ''Retrieved lecture context:'' @ [newline]"

definition systemPrompt :: "jsstring \<Rightarrow> 's chunk list \<Rightarrow> jsstring" where
  "systemPrompt persona chunks = persona @ contextHeader @ buildContext chunks"

section \<open>The handlers and their calls to the outside\<close>

text \<open>A thrown value: an \<open>Error\<close> with its message, or anything else.\<close>

datatype thrown = Error jsstring | NonError

record message =
  role :: jsstring
  content :: jsstring

text \<open>
  The \<open>textStream\<close> of a \<open>streamText\<close> result: the fragments it yields, and the error it
  raises after them if the provider fails while streaming.
\<close>

record textStream =
  fragments :: "jsstring list"
  failure :: "thrown option"

record AIConfig =
  openRouterApiKey :: "jsstring option"
  googleGenerativeAIApiKey :: "jsstring option"

text \<open>The parts of the Telegraf context that are read: \<open>ctx.from?.id\<close> and \<open>ctx.chat!.id\<close>.\<close>

record Context =
  from_id :: "int option"
  chat_id :: "int option"

text \<open>The calls a handler makes to its collaborators, in the order it makes them.\<close>

datatype call =
    Reply jsstring
  | SendChatAction jsstring
  | EditMessageText int nat jsstring
  | Retrieve jsstring nat
  | StreamText jsstring "message list"
  | ConsoleLog jsstring
  | ConsoleError jsstring thrown

text \<open>
  What the outside answers: the clock, the configuration that \<open>getAIConfig()\<close> returns,
  the persona constant of the \<open>@cybertantra/ai\<close> package, and the outcome of each call
  (\<open>Inl\<close> when it throws or rejects), as a function of the call's arguments. \<open>retrieve\<close>
  is \<open>queryAgent.retrieve\<close>, \<open>reply\<close> is \<open>ctx.reply\<close> and resolves to the id of the sent
  message, \<open>editMessageText\<close> is \<open>ctx.telegram.editMessageText\<close>. \<open>roundPercent\<close> stands
  for \<^verbatim>\<open>`${Math.round(chunk.score * 100)}`\<close>. Building the provider and the agent
  (\<open>createOpenRouter\<close>, \<open>new QueryAgent\<close>) makes no call and is left out.
\<close>

record 's world =
  Date_now :: int
  getAIConfig :: AIConfig
  CYBERTANTRA_SYSTEM_PROMPT :: jsstring
  retrieve :: "jsstring \<Rightarrow> nat \<Rightarrow> thrown + 's chunk list"
  streamText :: "jsstring \<Rightarrow> message list \<Rightarrow> thrown + textStream"
  reply :: "jsstring \<Rightarrow> thrown + nat"
  sendChatAction :: "jsstring \<Rightarrow> thrown + unit"
  editMessageText :: "int \<Rightarrow> nat \<Rightarrow> jsstring \<Rightarrow> thrown + unit"
  roundPercent :: "'s \<Rightarrow> jsstring"

text \<open>
  An \<open>async\<close> function body is run to the calls it made and its outcome. \<open>andThen\<close> is
  sequencing through \<open>await\<close>: the continuation runs only after the first part has
  resolved, and a rejection skips it. \<open>tryCatch\<close> is \<open>try { ... } catch (error) { ... }\<close>.
\<close>

type_synonym 'a io = "call list \<times> (thrown + 'a)"

definition pure :: "'a \<Rightarrow> 'a io" where
  "pure x = ([], Inr x)"

definition throw :: "thrown \<Rightarrow> 'a io" where
  "throw e = ([], Inl e)"

definition perform :: "call \<Rightarrow> thrown + 'a \<Rightarrow> 'a io" where
  "perform c outcome = ([c], outcome)"

definition andThen :: "'a io \<Rightarrow> ('a \<Rightarrow> 'b io) \<Rightarrow> 'b io" where
  "andThen m f =
     (case m of
        (cs, Inl e) \<Rightarrow> (cs, Inl e)
      | (cs, Inr x) \<Rightarrow> (case f x of (cs', r) \<Rightarrow> (cs @ cs', r)))"

definition tryCatch :: "'a io \<Rightarrow> (thrown \<Rightarrow> 'a io) \<Rightarrow> 'a io" where
  "tryCatch m h =
     (case m of
        (cs, Inl e) \<Rightarrow> (case h e of (cs', r) \<Rightarrow> (cs @ cs', r))
      | (cs, Inr x) \<Rightarrow> (cs, Inr x))"

text \<open>\<open>!config.key\<close> holds for a missing key and for the empty string.\<close>

definition truthy :: "jsstring option \<Rightarrow> bool" where
  "truthy v = (case v of None \<Rightarrow> False | Some s \<Rightarrow> s \<noteq> [])"

definition requireKeys :: "AIConfig \<Rightarrow> unit io" where
  "requireKeys config =
     (if \<not> truthy (openRouterApiKey config)
      then throw (Error (ascii ''OpenRouter API key required''))
      else if \<not> truthy (googleGenerativeAIApiKey config)
      then throw (Error (ascii ''Google Generative AI API key required for embeddings''))
      else pure ())"

definition rateLimitMessage :: jsstring where
  "rateLimitMessage = [0x23F3] @
     ascii '' Rate limit exceeded. Please wait a minute before asking another question.''"

definition errorMessage :: jsstring where
  "errorMessage = [0x274C] @ ascii
     '' Sorry, I encountered an error while processing your question. Please try again later.''"

definition dizzy :: jsstring where
  "dizzy = [0xD83D, 0xDCAB]"

definition books :: jsstring where
  "books = [0xD83D, 0xDCDA]"

text \<open>
  \<open>buffer.match(/[.!?]\s*$/)\<close>: the buffer ends with one of \<open>.!?\<close> followed by white space
  only; \<open>isSpace\<close> is the class \<open>\s\<close> of ECMAScript.
\<close>

definition isSpace :: "16 word \<Rightarrow> bool" where
  "isSpace c =
     (c \<in> set [0x09, 0x0A, 0x0B, 0x0C, 0x0D, 0x20, 0xA0, 0x1680, 0x2028, 0x2029, 0x202F,
        0x205F, 0x3000, 0xFEFF] \<or> (0x2000 \<le> c \<and> c \<le> 0x200A))"

definition endsSentence :: "jsstring \<Rightarrow> bool" where
  "endsSentence buffer =
     (case dropWhile isSpace (rev buffer) of
        [] \<Rightarrow> False
      | c # _ \<Rightarrow> c \<in> set (ascii ''.!?''))"

text \<open>
  \<open>ctx.telegram.editMessageText(ctx.chat!.id, sentMessage.message_id, undefined, text)\<close>;
  reading \<open>id\<close> of a missing chat throws before the call is made.
\<close>

definition edit :: "'s world \<Rightarrow> Context \<Rightarrow> nat \<Rightarrow> jsstring \<Rightarrow> unit io" where
  "edit w ctx message_id t =
     (case chat_id ctx of
        None \<Rightarrow> throw (Error (ascii ''TypeError''))
      | Some chat \<Rightarrow>
          perform (EditMessageText chat message_id t) (editMessageText w chat message_id t))"

text \<open>
  The \<open>for await (const chunk of result.textStream)\<close> loop on
  \<open>(fullResponse, updateCounter, buffer)\<close>. A failed intermediate edit is logged and the
  loop goes on.
\<close>

fun streamLoop ::
  "'s world \<Rightarrow> Context \<Rightarrow> nat \<Rightarrow> jsstring list \<Rightarrow> jsstring \<times> nat \<times> jsstring \<Rightarrow>
   call list \<times> jsstring \<times> nat \<times> jsstring" where
  "streamLoop w ctx message_id [] st = ([], st)"
| "streamLoop w ctx message_id (chunk # rest) (fullResponse, updateCounter, buffer) =
     (let buffer = buffer @ chunk;
          fullResponse = fullResponse @ chunk
      in if length buffer > 50 \<or> endsSentence buffer
         then
           let updateCounter = updateCounter + 1;
               calls =
                 (if updateCounter mod 3 = 0
                  then fst (tryCatch (edit w ctx message_id (fullResponse @ ascii ''...''))
                         (\<lambda>error. perform (ConsoleLog (ascii ''Edit rate limit hit, continuing...''))
                            (Inr ())))
                  else []);
               r = streamLoop w ctx message_id rest (fullResponse, updateCounter, [])
           in (calls @ fst r, snd r)
         else streamLoop w ctx message_id rest (fullResponse, updateCounter, buffer))"

text \<open>The sources footer: the first five results, numbered from 1.\<close>

definition sourceLine :: "'s world \<Rightarrow> 's chunk \<Rightarrow> nat \<Rightarrow> jsstring" where
  "sourceLine w chunk index =
     [newline] @ toStringNat (index + 1) @ ascii ''. '' @ source chunk @
     ascii '' (relevance: '' @ roundPercent w (score chunk) @ ascii ''%)''"

definition addSources :: "'s world \<Rightarrow> 's chunk list \<Rightarrow> jsstring \<Rightarrow> jsstring" where
  "addSources w chunks fullResponse =
     (if length chunks > 0
      then fullResponse @ [newline, newline] @ books @ ascii '' Sources:'' @
             concat (mapi (sourceLine w) (take 5 chunks))
      else fullResponse)"

text \<open>
  Running the loop from \<open>fullResponse = dizzy + ' '\<close>; the stream's error, if any, is thrown
  after its fragments.
\<close>

definition consume :: "'s world \<Rightarrow> Context \<Rightarrow> nat \<Rightarrow> textStream \<Rightarrow> jsstring io" where
  "consume w ctx message_id result =
     (let r = streamLoop w ctx message_id (fragments result) (dizzy @ ascii '' '', 0, [])
      in (fst r, case failure result of Some e \<Rightarrow> Inl e | None \<Rightarrow> Inr (fst (snd r))))"

text \<open>The final edit, and the new message sent when it fails.\<close>

definition finalUpdate :: "'s world \<Rightarrow> Context \<Rightarrow> nat \<Rightarrow> jsstring \<Rightarrow> unit io" where
  "finalUpdate w ctx message_id fullResponse =
     tryCatch (edit w ctx message_id fullResponse)
       (\<lambda>error. andThen (perform (Reply fullResponse) (reply w fullResponse)) (\<lambda>_. pure ()))"

text \<open>The body of the \<open>try\<close> block of \<open>handleQuestion\<close>.\<close>

definition answer :: "'s world \<Rightarrow> Context \<Rightarrow> jsstring \<Rightarrow> unit io" where
  "answer w ctx question =
     andThen (requireKeys (getAIConfig w)) (\<lambda>_.
     andThen (perform (Retrieve question 20) (retrieve w question 20)) (\<lambda>chunks.
     let sys = systemPrompt (CYBERTANTRA_SYSTEM_PROMPT w) chunks;
         messages = [\<lparr>role = ascii ''user'', content = question\<rparr>]
     in
     andThen (perform (StreamText sys messages) (streamText w sys messages)) (\<lambda>result.
     andThen (perform (Reply (dizzy @ ascii '' ...'')) (reply w (dizzy @ ascii '' ...'')))
       (\<lambda>message_id.
     andThen (consume w ctx message_id result) (\<lambda>fullResponse.
     finalUpdate w ctx message_id (addSources w chunks fullResponse))))))"

definition userIdOf :: "Context \<Rightarrow> int" where
  "userIdOf ctx = (case from_id ctx of None \<Rightarrow> 0 | Some i \<Rightarrow> i)"

text \<open>
  \<open>handleQuestion\<close>. The rate-limit reply is returned, so its rejection is the handler's; the
  reply in the \<open>catch\<close> block is not awaited.
\<close>

definition handleQuestion ::
  "'s world \<Rightarrow> Context \<Rightarrow> jsstring \<Rightarrow> rateLimits \<Rightarrow> rateLimits \<times> unit io" where
  "handleQuestion w ctx question rl =
     (let userId = userIdOf ctx;
          r = checkRateLimit (Date_now w) (toString userId) rl
      in if \<not> fst r
         then (snd r, andThen (perform (Reply rateLimitMessage) (reply w rateLimitMessage))
                        (\<lambda>_. pure ()))
         else (snd r,
           andThen (perform (SendChatAction (ascii ''typing'')) (sendChatAction w (ascii ''typing'')))
             (\<lambda>_. tryCatch (answer w ctx question)
                (\<lambda>error.
                   andThen (perform (ConsoleError (ascii ''Error handling question:'') error) (Inr ()))
                     (\<lambda>_. perform (Reply errorMessage) (Inr ()))))))"

text \<open>
  The chat route. \<open>JSON_error msg\<close> is the body \<open>JSON.stringify({ error: msg })\<close>, and
  \<open>TextStreamResponse\<close> is \<open>result.toTextStreamResponse()\<close>. \<open>req.json()\<close> is awaited
  outside the \<open>try\<close> block; its outcome is the argument of \<open>POST\<close>.
\<close>

datatype body = Text jsstring | JSON_error jsstring

datatype response = Response body nat | TextStreamResponse textStream

definition errorText :: "thrown \<Rightarrow> jsstring" where
  "errorText error = (case error of Error msg \<Rightarrow> msg | NonError \<Rightarrow> ascii ''Chat failed'')"

text \<open>The body of the \<open>try\<close> block of the chat route's \<open>POST\<close>.\<close>

definition chat :: "'s world \<Rightarrow> message list \<Rightarrow> response io" where
  "chat w messages =
     andThen (requireKeys (getAIConfig w)) (\<lambda>_.
     let lastUserMessage = last messages;
         query = content lastUserMessage
     in
     andThen (perform (Retrieve query 10) (retrieve w query 10)) (\<lambda>chunks.
     let sys = systemPrompt (CYBERTANTRA_SYSTEM_PROMPT w) chunks
     in
     andThen (perform (StreamText sys messages) (streamText w sys messages)) (\<lambda>result.
     pure (TextStreamResponse result))))"

definition POST :: "'s world \<Rightarrow> thrown + message list option \<Rightarrow> response io" where
  "POST w req_json =
     andThen ([], req_json) (\<lambda>messages.
       case messages of
         None \<Rightarrow> pure (Response (Text (ascii ''No messages provided'')) 400)
       | Some [] \<Rightarrow> pure (Response (Text (ascii ''No messages provided'')) 400)
       | Some (m # ms) \<Rightarrow>
           tryCatch (chat w (m # ms))
             (\<lambda>error.
                andThen (perform (ConsoleError (ascii ''Chat error:'') error) (Inr ())) (\<lambda>_.
                pure (Response (JSON_error (errorText error)) 500))))"

section \<open>Notions used in the statements\<close>

text \<open>The number a decimal string denotes.\<close>

definition parseNat :: "jsstring \<Rightarrow> nat" where
  "parseNat ds = foldl (\<lambda>a d. 10 * a + (unat d - 48)) 0 ds"

text \<open>A list of calls without a retrieval and without a completion call.\<close>

definition quiet :: "call list \<Rightarrow> bool" where
  "quiet cs =
     (\<forall>c\<in>set cs. case c of Retrieve q k \<Rightarrow> False | StreamText sys ms \<Rightarrow> False | _ \<Rightarrow> True)"

text \<open>
  The calls of a handler, as far as retrieval and completion go: neither; or one retrieval,
  which failed; or one retrieval followed at once by one completion call whose system
  prompt is built from the retrieved results.
\<close>

definition shaped ::
  "call list \<Rightarrow> jsstring \<Rightarrow> nat \<Rightarrow> thrown + 's chunk list \<Rightarrow> jsstring \<Rightarrow> message list \<Rightarrow>
   bool" where
  "shaped cs q k outcome persona ms =
     (\<exists>A B. quiet A \<and> quiet B \<and>
        (cs = A
         \<or> (cs = A @ Retrieve q k # B \<and> (\<exists>e. outcome = Inl e))
         \<or> (\<exists>chunks. outcome = Inr chunks \<and>
               cs = A @ Retrieve q k # StreamText (systemPrompt persona chunks) ms # B)))"

section \<open>Concrete inputs\<close>

subsection \<open>A burst of calls\<close>

definition alice :: jsstring where
  "alice = ascii ''1001''"

definition bob :: jsstring where
  "bob = ascii ''2002''"

text \<open>Eleven calls of one identity inside one minute, with a call of another in between.\<close>

definition burst :: "(int \<times> jsstring) list" where
  "burst = [(0, alice), (1000, alice), (1500, bob), (2000, alice), (3000, alice),
     (4000, alice), (5000, alice), (6000, alice), (7000, alice), (8000, alice),
     (9000, alice), (59999, alice)]"

text \<open>The map after ten recorded calls of one identity.\<close>

definition tenRecorded :: rateLimits where
  "tenRecorded = [alice \<mapsto> [0, 1000, 2000, 3000, 4000, 5000, 6000, 7000, 8000, 9000]]"

subsection \<open>Texts to split\<close>

definition blankFirst :: jsstring where
  "blankFirst = newline # ascii ''abc''"

definition threeLines :: jsstring where
  "threeLines = ascii ''ab'' @ [newline] @ ascii ''cd'' @ [newline] @ ascii ''xy''"

subsection \<open>A question and the answers of the outside\<close>

definition c1 :: "unit chunk" where
  "c1 = \<lparr>text' = ascii ''aa'', source = ascii ''s1'', score = ()\<rparr>"

definition c2 :: "unit chunk" where
  "c2 = \<lparr>text' = ascii ''bb'', source = ascii ''s2'', score = ()\<rparr>"

definition result0 :: textStream where
  "result0 = \<lparr>fragments = [ascii ''Hi.'', ascii '' Yes.'', ascii '' No.''], failure = None\<rparr>"

text \<open>
  Both keys are set, retrieval returns two results, the completion streams three sentences,
  and every edit but the intermediate one is refused.
\<close>

definition w0 :: "unit world" where
  "w0 = \<lparr>Date_now = 5,
     getAIConfig =
       \<lparr>openRouterApiKey = Some (ascii ''k''), googleGenerativeAIApiKey = Some (ascii ''g'')\<rparr>,
     CYBERTANTRA_SYSTEM_PROMPT = ascii ''P'',
     retrieve = (\<lambda>q k. Inr (take k [c1, c2])),
     streamText = (\<lambda>s m. Inr result0),
     reply = (\<lambda>t. Inr 7),
     sendChatAction = (\<lambda>a. Inr ()),
     editMessageText =
       (\<lambda>c m t. if t = dizzy @ ascii '' Hi. Yes. No....'' then Inr ()
          else Inl (Error (ascii ''429''))),
     roundPercent = (\<lambda>s. ascii ''50'')\<rparr>"

definition ctx0 :: Context where
  "ctx0 = \<lparr>from_id = Some 42, chat_id = Some 9\<rparr>"

definition q0 :: jsstring where
  "q0 = ascii ''q?''"

definition full0 :: jsstring where
  "full0 = dizzy @ ascii '' Hi. Yes. No.'' @ [newline, newline] @ books @ ascii '' Sources:'' @
     [newline] @ ascii ''1. s1 (relevance: 50%)'' @ [newline] @ ascii ''2. s2 (relevance: 50%)''"

definition sys0 :: jsstring where
  "sys0 = ascii ''P'' @ [newline, newline] @ ascii ''Retrieved lecture context:'' @ [newline] @
     ascii ''[1] From \"s1\":'' @ [newline] @ ascii ''aa'' @
     [newline, newline] @ ascii ''---'' @ [newline, newline] @
     ascii ''[2] From \"s2\":'' @ [newline] @ ascii ''bb''"


definition m0 :: message where
  "m0 = \<lparr>role = ascii ''user'', content = q0\<rparr>"





text \<open>
  One result whose text holds the separator and the label of a second passage; and an
  outside that refuses, for edits and replies alike, any text longer than 64 code units.
\<close>

definition c12 :: "unit chunk" where
  "c12 = \<lparr>text' = ascii ''aa'' @ [newline, newline] @ ascii ''---'' @ [newline, newline] @
            ascii ''[2] From \"s2\":'' @ [newline] @ ascii ''bb'',
          source = ascii ''s1'', score = ()\<rparr>"


section \<open>Properties of the rate limiter\<close>

subsection \<open>One call\<close>

lemma userRequests_other:
  "v \<noteq> u \<Longrightarrow> userRequests (snd (checkRateLimit now v rl)) u = userRequests rl u"
  by (simp add: checkRateLimit_def userRequests_def)

lemma validRequests_all:
  "\<forall>t\<in>set (userRequests rl u). now - t < RATE_LIMIT_WINDOW \<Longrightarrow>
   validRequests now rl u = userRequests rl u"
  by (simp add: validRequests_def)

lemma allowed_after_window:
  assumes "\<forall>t\<in>set (userRequests rl u). RATE_LIMIT_WINDOW \<le> now - t"
  shows "checkRateLimit now u rl = (True, rl(u \<mapsto> [now]))"
proof -
  have "validRequests now rl u = []"
    using assms by (auto simp: validRequests_def filter_empty_conv)
  then show ?thesis
    by (simp add: checkRateLimit_def MAX_REQUESTS_def)
qed

subsection \<open>Sequences of calls\<close>

lemma map_upt_Suc_shift: "map f [0..<Suc n] = f 0 # map (\<lambda>k. f (Suc k)) [0..<n]"
  by (simp add: upt_conv_Cons map_Suc_upt [symmetric] del: upt_Suc)

lemma answersFor_Cons:
  "answersFor u ((now, v) # cs) (ok # oks) =
     (if v = u then ok # answersFor u cs oks else answersFor u cs oks)"
  by (simp add: answersFor_def)

lemma timesFor_Cons:
  "timesFor u ((now, v) # cs) = (if v = u then now # timesFor u cs else timesFor u cs)"
  by (simp add: timesFor_def)

text \<open>
  While every recorded timestamp and every later call of the identity lie less than a window
  apart, nothing is pruned, so the \<open>k\<close>-th further call is allowed exactly when the number
  of timestamps recorded before it is below the maximum. Calls of other identities do not
  touch the entry.
\<close>

lemma answers_within_window:
  "userRequests rl u = es \<Longrightarrow>
   \<forall>a\<in>set (es @ timesFor u cs). \<forall>b\<in>set (es @ timesFor u cs). b - a < RATE_LIMIT_WINDOW \<Longrightarrow>
   answersFor u cs (fst (runCalls rl cs)) =
     map (\<lambda>k. length es + k < MAX_REQUESTS) [0..<length (timesFor u cs)]"
proof (induction cs arbitrary: rl es)
  case Nil
  then show ?case by (simp add: answersFor_def timesFor_def)
next
  case (Cons c cs)
  obtain now v where c: "c = (now, v)" by (cases c)
  let ?r = "checkRateLimit now v rl"
  show ?case
  proof (cases "v = u")
    case False
    have "userRequests (snd ?r) u = es"
      using False Cons.prems(1) by (simp add: userRequests_other)
    moreover have "timesFor u (c # cs) = timesFor u cs"
      using False c by (simp add: timesFor_Cons)
    ultimately have "answersFor u cs (fst (runCalls (snd ?r) cs)) =
        map (\<lambda>k. length es + k < MAX_REQUESTS) [0..<length (timesFor u cs)]"
      using Cons.IH [of "snd ?r" es] Cons.prems(2) by simp
    then show ?thesis
      using False c by (simp add: Let_def answersFor_Cons timesFor_Cons)
  next
    case True
    have ts: "timesFor u (c # cs) = now # timesFor u cs"
      using True c by (simp add: timesFor_Cons)
    have "\<forall>t\<in>set (userRequests rl u). now - t < RATE_LIMIT_WINDOW"
      using Cons.prems ts by simp
    then have valid: "validRequests now rl u = es"
      using Cons.prems(1) by (simp add: validRequests_all)
    show ?thesis
    proof (cases "length es < MAX_REQUESTS")
      case lt: True
      have r: "?r = (True, rl(u \<mapsto> es @ [now]))"
        using lt valid True by (simp add: checkRateLimit_def)
      have "userRequests (snd ?r) u = es @ [now]"
        using r by (simp add: userRequests_def)
      moreover have "\<forall>a\<in>set ((es @ [now]) @ timesFor u cs).
          \<forall>b\<in>set ((es @ [now]) @ timesFor u cs). b - a < RATE_LIMIT_WINDOW"
        using Cons.prems(2) ts by simp
      ultimately have "answersFor u cs (fst (runCalls (snd ?r) cs)) =
          map (\<lambda>k. length (es @ [now]) + k < MAX_REQUESTS) [0..<length (timesFor u cs)]"
        by (rule Cons.IH)
      then show ?thesis
        using True c r lt ts
        by (simp add: Let_def answersFor_Cons map_upt_Suc_shift del: upt_Suc)
    next
      case ge: False
      have r: "?r = (False, rl)"
        using ge valid True by (simp add: checkRateLimit_def)
      have "answersFor u cs (fst (runCalls rl cs)) =
          map (\<lambda>k. length es + k < MAX_REQUESTS) [0..<length (timesFor u cs)]"
        using Cons.IH [of rl es] Cons.prems ts by simp
      moreover have "map (\<lambda>k. length es + Suc k < MAX_REQUESTS) [0..<length (timesFor u cs)] =
          map (\<lambda>k. length es + k < MAX_REQUESTS) [0..<length (timesFor u cs)]"
        using ge by (intro map_cong) auto
      ultimately show ?thesis
        using True c r ge ts
        by (simp add: Let_def answersFor_Cons map_upt_Suc_shift del: upt_Suc)
    qed
  qed
qed

lemma bounded_step: "bounded rl \<Longrightarrow> bounded (snd (checkRateLimit now u rl))"
  by (auto simp: bounded_def checkRateLimit_def)

lemma bounded_runCalls: "bounded rl \<Longrightarrow> bounded (snd (runCalls rl cs))"
  by (induction cs arbitrary: rl) (auto simp: Let_def bounded_step)

lemma alice_neq_bob: "alice \<noteq> bob" "bob \<noteq> alice"
  by (simp_all add: alice_def bob_def ascii_def)

lemma timesFor_burst:
  "timesFor alice burst = [0, 1000, 2000, 3000, 4000, 5000, 6000, 7000, 8000, 9000, 59999]"
  by (simp add: timesFor_def burst_def alice_neq_bob)

lemma userRequests_tenRecorded:
  "userRequests tenRecorded alice = [0, 1000, 2000, 3000, 4000, 5000, 6000, 7000, 8000, 9000]"
  by (simp add: userRequests_def tenRecorded_def)

text \<open>
  C1. A call keeps the identity's timestamps that are less than 60000 ms old; with fewer
  than 10 of them left it stores them followed by the new timestamp and answers true,
  otherwise it answers false and leaves the map as it was. When the identity's stored
  timestamps and its further calls all lie less than 60000 ms apart, a call is allowed
  exactly while fewer than ten timestamps are stored, whatever other identities do in
  between: for an identity with no history the first ten calls are allowed and the
  eleventh is not. Once every stored timestamp of the identity is at least 60000 ms old,
  the call is allowed again.
\<close>

theorem checkRateLimit_sliding_window:
  "validRequests now rl u = filter (\<lambda>t. now - t < 60000) (userRequests rl u)
   \<and> (length (validRequests now rl u) < 10 \<longrightarrow>
        checkRateLimit now u rl = (True, rl(u \<mapsto> validRequests now rl u @ [now])))
   \<and> (\<not> length (validRequests now rl u) < 10 \<longrightarrow> checkRateLimit now u rl = (False, rl))
   \<and> ((\<forall>a\<in>set (userRequests rl u @ timesFor u cs).
         \<forall>b\<in>set (userRequests rl u @ timesFor u cs). b - a < 60000) \<longrightarrow>
        answersFor u cs (fst (runCalls rl cs)) =
          map (\<lambda>k. length (userRequests rl u) + k < 10) [0..<length (timesFor u cs)])
   \<and> ((\<forall>t\<in>set (userRequests rl u). 60000 \<le> now - t) \<longrightarrow>
        checkRateLimit now u rl = (True, rl(u \<mapsto> [now])))"
proof (intro conjI impI)
  show "validRequests now rl u = filter (\<lambda>t. now - t < 60000) (userRequests rl u)"
    by (simp add: validRequests_def RATE_LIMIT_WINDOW_def)
  show "checkRateLimit now u rl = (True, rl(u \<mapsto> validRequests now rl u @ [now]))"
    if "length (validRequests now rl u) < 10"
    using that by (simp add: checkRateLimit_def MAX_REQUESTS_def)
  show "checkRateLimit now u rl = (False, rl)" if "\<not> length (validRequests now rl u) < 10"
    using that by (simp add: checkRateLimit_def MAX_REQUESTS_def)
  show "answersFor u cs (fst (runCalls rl cs)) =
      map (\<lambda>k. length (userRequests rl u) + k < 10) [0..<length (timesFor u cs)]"
    if "\<forall>a\<in>set (userRequests rl u @ timesFor u cs).
         \<forall>b\<in>set (userRequests rl u @ timesFor u cs). b - a < 60000"
    using that answers_within_window [of rl u "userRequests rl u" cs]
    by (simp add: MAX_REQUESTS_def RATE_LIMIT_WINDOW_def)
  show "checkRateLimit now u rl = (True, rl(u \<mapsto> [now]))"
    if "\<forall>t\<in>set (userRequests rl u). 60000 \<le> now - t"
    using that allowed_after_window [of rl u now] by (simp add: RATE_LIMIT_WINDOW_def)
qed

theorem checkRateLimit_sliding_window_witness:
  "answersFor alice burst (fst (runCalls Map.empty burst)) =
     [True, True, True, True, True, True, True, True, True, True, False]
   \<and> checkRateLimit 59999 alice tenRecorded = (False, tenRecorded)
   \<and> checkRateLimit 60000 alice tenRecorded =
       (True, tenRecorded(alice \<mapsto> [1000, 2000, 3000, 4000, 5000, 6000, 7000, 8000, 9000, 60000]))
   \<and> checkRateLimit 69000 alice tenRecorded = (True, tenRecorded(alice \<mapsto> [69000]))"
proof (intro conjI)
  have none: "userRequests Map.empty alice = []"
    by (simp add: userRequests_def)
  have "\<forall>a\<in>set (userRequests Map.empty alice @ timesFor alice burst).
      \<forall>b\<in>set (userRequests Map.empty alice @ timesFor alice burst). b - a < 60000"
    by (simp add: none timesFor_burst)
  then have "answersFor alice burst (fst (runCalls Map.empty burst)) =
      map (\<lambda>k. length (userRequests Map.empty alice) + k < 10)
        [0..<length (timesFor alice burst)]"
    using checkRateLimit_sliding_window [of 0 Map.empty alice burst] by blast
  then show "answersFor alice burst (fst (runCalls Map.empty burst)) =
      [True, True, True, True, True, True, True, True, True, True, False]"
    by (simp add: none timesFor_burst upt_conv_Cons)
next
  have "validRequests 59999 tenRecorded alice = userRequests tenRecorded alice"
    using checkRateLimit_sliding_window [of 59999 tenRecorded alice "[]"]
    by (simp add: userRequests_tenRecorded)
  then have "\<not> length (validRequests 59999 tenRecorded alice) < 10"
    by (simp add: userRequests_tenRecorded)
  then show "checkRateLimit 59999 alice tenRecorded = (False, tenRecorded)"
    using checkRateLimit_sliding_window [of 59999 tenRecorded alice "[]"] by blast
next
  have v: "validRequests 60000 tenRecorded alice =
      [1000, 2000, 3000, 4000, 5000, 6000, 7000, 8000, 9000]"
    using checkRateLimit_sliding_window [of 60000 tenRecorded alice "[]"]
    by (simp add: userRequests_tenRecorded)
  then have "length (validRequests 60000 tenRecorded alice) < 10"
    by simp
  then have "checkRateLimit 60000 alice tenRecorded =
      (True, tenRecorded(alice \<mapsto> validRequests 60000 tenRecorded alice @ [60000]))"
    using checkRateLimit_sliding_window [of 60000 tenRecorded alice "[]"] by blast
  then show "checkRateLimit 60000 alice tenRecorded =
      (True, tenRecorded(alice \<mapsto> [1000, 2000, 3000, 4000, 5000, 6000, 7000, 8000, 9000, 60000]))"
    by (simp add: v)
next
  have "\<forall>t\<in>set (userRequests tenRecorded alice). 60000 \<le> (69000::int) - t"
    by (simp add: userRequests_tenRecorded)
  then show "checkRateLimit 69000 alice tenRecorded = (True, tenRecorded(alice \<mapsto> [69000]))"
    using checkRateLimit_sliding_window [of 69000 tenRecorded alice "[]"] by blast
qed

text \<open>
  C9. Starting from the empty map, after any finite sequence of calls for any identities
  the list stored for an identity has at most \<open>MAX_REQUESTS = 10\<close> timestamps.
\<close>

theorem rateLimits_length_bounded:
  "snd (runCalls Map.empty cs) u = Some ts \<Longrightarrow> length ts \<le> 10"
  using bounded_runCalls [of Map.empty cs] by (simp add: bounded_def MAX_REQUESTS_def)

theorem rateLimits_length_bounded_witness:
  "snd (runCalls Map.empty burst) alice =
     Some [0, 1000, 2000, 3000, 4000, 5000, 6000, 7000, 8000, 9000]
   \<and> length [0, 1000, 2000, 3000, 4000, 5000, 6000, 7000, 8000, 9000 :: int] \<le> 10"
proof -
  have run: "snd (runCalls Map.empty burst) alice =
      Some [0, 1000, 2000, 3000, 4000, 5000, 6000, 7000, 8000, 9000]"
    by code_simp
  from rateLimits_length_bounded [OF run] run show ?thesis by simp
qed

section \<open>Properties of \<open>splitMessage\<close>\<close>

lemma split_ne [simp]: "split sep s \<noteq> []"
  by (induction s) (auto split: list.splits)

lemma join_Cons: "ys \<noteq> [] \<Longrightarrow> join (x # ys) sep = x @ sep @ join ys sep"
  by (cases ys) auto

lemma join_Cons_hd: "join ((c # l) # ls) sep = c # join (l # ls) sep"
  by (cases ls) auto

lemma join_split: "join (split sep s) [sep] = s"
proof (induction s)
  case Nil
  show ?case by simp
next
  case (Cons c cs)
  obtain l ls where ls: "split sep cs = l # ls"
    by (cases "split sep cs") auto
  show ?case
    using Cons ls by (auto simp: join_Cons join_Cons_hd)
qed

lemma join_snoc: "xs \<noteq> [] \<Longrightarrow> join (xs @ [y]) sep = join xs sep @ sep @ y"
  by (induction xs sep rule: join.induct) auto

lemma join_snoc_append: "join (xs @ [c @ d]) sep = join (xs @ [c]) sep @ d"
  by (induction xs sep rule: join.induct) auto

lemma join_concat: "join (l # ls) [c] = l @ concat (map (\<lambda>x. c # x) ls)"
  by (induction ls arbitrary: l) auto

lemma split_lines_no_sep: "l \<in> set (split sep s) \<Longrightarrow> sep \<notin> set l"
  by (induction s arbitrary: l) (auto split: if_splits list.splits)

lemma split_no_sep: "sep \<notin> set l \<Longrightarrow> split sep l = [l]"
  by (induction l) auto

lemma split_append: "sep \<notin> set b \<Longrightarrow> split sep (a @ sep # b) = split sep a @ [b]"
  by (induction a) (auto simp: split_no_sep split: list.splits)

lemma splitLoop_bounds:
  "\<forall>l\<in>set lines. int (length l) < m \<Longrightarrow>
   \<forall>c\<in>set chunks. int (length c) \<le> m \<and> c \<noteq> [] \<Longrightarrow>
   int (length cur) \<le> m \<Longrightarrow>
   splitLoop m chunks cur lines = (chunks', cur') \<Longrightarrow>
   (\<forall>c\<in>set chunks'. int (length c) \<le> m \<and> c \<noteq> []) \<and> int (length cur') \<le> m"
proof (induction lines arbitrary: chunks cur)
  case Nil
  then show ?case by simp
next
  case (Cons line lines)
  have line: "int (length line) < m" using Cons.prems(1) by simp
  have rest: "\<forall>l\<in>set lines. int (length l) < m" using Cons.prems(1) by simp
  show ?case
  proof (cases "int (length cur) + int (length line) + 1 > m")
    case True
    then have "cur \<noteq> []" using line by auto
    then have acc: "\<forall>c\<in>set (chunks @ [cur]). int (length c) \<le> m \<and> c \<noteq> []"
      using Cons.prems(2,3) by simp
    have le: "int (length line) \<le> m" using line by simp
    have "splitLoop m (chunks @ [cur]) line lines = (chunks', cur')"
      using True Cons.prems(4) by simp
    then show ?thesis
      by (rule Cons.IH [OF rest acc le])
  next
    case False
    let ?cur = "cur @ (if cur \<noteq> [] then [newline] else []) @ line"
    have le: "int (length ?cur) \<le> m"
      using False by simp
    have "splitLoop m chunks ?cur lines = (chunks', cur')"
      using False Cons.prems(4) by (simp del: append_assoc)
    then show ?thesis
      by (rule Cons.IH [OF rest Cons.prems(2) le])
  qed
qed

lemma linesOf_append: "linesOf (a @ b) = linesOf a @ linesOf b"
  by (simp add: linesOf_def)

lemma linesOf_single: "linesOf [c] = split newline c"
  by (simp add: linesOf_def)

lemma splitLoop_lines:
  "\<forall>l\<in>set lines. newline \<notin> set l \<Longrightarrow>
   splitLoop m chunks cur lines = (chunks', cur') \<Longrightarrow>
   nonblank (linesOf (chunks' @ [cur'])) = nonblank (linesOf (chunks @ [cur])) @ nonblank lines"
proof (induction lines arbitrary: chunks cur)
  case Nil
  then show ?case by (simp add: nonblank_def)
next
  case (Cons line lines)
  have line: "newline \<notin> set line" using Cons.prems(1) by simp
  show ?case
  proof (cases "int (length cur) + int (length line) + 1 > m")
    case True
    then have "splitLoop m (chunks @ [cur]) line lines = (chunks', cur')"
      using Cons.prems(2) by simp
    then have "nonblank (linesOf (chunks' @ [cur'])) =
        nonblank (linesOf ((chunks @ [cur]) @ [line])) @ nonblank lines"
      using Cons.IH [of "chunks @ [cur]" line] Cons.prems(1) by simp
    moreover have "linesOf ((chunks @ [cur]) @ [line]) = linesOf (chunks @ [cur]) @ [line]"
      by (simp only: linesOf_append linesOf_single split_no_sep [OF line])
    ultimately show ?thesis
      by (simp add: nonblank_def)
  next
    case False
    let ?cur = "cur @ (if cur \<noteq> [] then [newline] else []) @ line"
    have "splitLoop m chunks ?cur lines = (chunks', cur')"
      using False Cons.prems(2) by simp
    then have "nonblank (linesOf (chunks' @ [cur'])) =
        nonblank (linesOf (chunks @ [?cur])) @ nonblank lines"
      using Cons.IH [of chunks ?cur] Cons.prems(1) by simp
    moreover have "nonblank (split newline ?cur) = nonblank (split newline cur) @ nonblank [line]"
      using line by (simp add: split_append split_no_sep nonblank_def)
    ultimately show ?thesis
      by (simp add: linesOf_append linesOf_single nonblank_def)
  qed
qed

lemma splitLoop_join:
  "cur \<noteq> [] \<Longrightarrow> \<forall>l\<in>set lines. l \<noteq> [] \<Longrightarrow>
   splitLoop m chunks cur lines = (chunks', cur') \<Longrightarrow>
   cur' \<noteq> [] \<and>
   join (chunks' @ [cur']) [newline] =
     join (chunks @ [cur]) [newline] @ concat (map (\<lambda>l. newline # l) lines)"
proof (induction lines arbitrary: chunks cur)
  case Nil
  then show ?case by simp
next
  case (Cons line lines)
  have line: "line \<noteq> []" using Cons.prems(2) by simp
  show ?case
  proof (cases "int (length cur) + int (length line) + 1 > m")
    case True
    then have "splitLoop m (chunks @ [cur]) line lines = (chunks', cur')"
      using Cons.prems(3) by simp
    then have "cur' \<noteq> [] \<and> join (chunks' @ [cur']) [newline] =
        join ((chunks @ [cur]) @ [line]) [newline] @ concat (map (\<lambda>l. newline # l) lines)"
      using Cons.IH [of line "chunks @ [cur]"] Cons.prems(2) line by simp
    then show ?thesis
      using join_snoc [of "chunks @ [cur]" line "[newline]"] by simp
  next
    case False
    let ?cur = "cur @ [newline] @ line"
    have "splitLoop m chunks ?cur lines = (chunks', cur')"
      using False Cons.prems(1,3) by simp
    then have "cur' \<noteq> [] \<and> join (chunks' @ [cur']) [newline] =
        join (chunks @ [?cur]) [newline] @ concat (map (\<lambda>l. newline # l) lines)"
      using Cons.IH [of ?cur chunks] Cons.prems(2) by simp
    then show ?thesis
      using join_snoc_append [of chunks cur "[newline] @ line" "[newline]"] by simp
  qed
qed

lemma split_threeLines: "split newline threeLines = [ascii ''ab'', ascii ''cd'', ascii ''xy'']"
  by code_simp

lemma split_blankFirst: "split newline blankFirst = [[], ascii ''abc'']"
  by code_simp

lemma splitMessage_blankFirst: "splitMessage blankFirst 10 = [ascii ''abc'']"
  by code_simp

text \<open>
  C10 (as amended). For a text whose every line is shorter than \<open>maxLength\<close>, with
  \<open>maxLength > 0\<close>: every chunk of \<open>splitMessage\<close> is non-empty and at most
  \<open>maxLength\<close> long, the non-empty lines of the chunks are the non-empty lines of the
  text in the same order, and when no line of the text is empty, joining the chunks with
  a single newline gives the text back.
\<close>

theorem splitMessage_chunks:
  assumes "0 < m" and "\<forall>l\<in>set (split newline text). int (length l) < m"
  shows "(\<forall>c\<in>set (splitMessage text m). int (length c) \<le> m \<and> c \<noteq> [])
    \<and> nonblank (linesOf (splitMessage text m)) = nonblank (split newline text)
    \<and> ((\<forall>l\<in>set (split newline text). l \<noteq> []) \<longrightarrow>
         join (splitMessage text m) [newline] = text)"
proof -
  obtain chunks cur where loop: "splitLoop m [] [] (split newline text) = (chunks, cur)"
    by (cases "splitLoop m [] [] (split newline text)")
  have out: "splitMessage text m = (if cur \<noteq> [] then chunks @ [cur] else chunks)"
    by (simp add: splitMessage_def loop)
  have b: "(\<forall>c\<in>set chunks. int (length c) \<le> m \<and> c \<noteq> []) \<and> int (length cur) \<le> m"
    using splitLoop_bounds [of "split newline text" m "[]" "[]" chunks cur] assms loop by simp
  have "nonblank (linesOf (chunks @ [cur])) = nonblank (linesOf [[]]) @ nonblank (split newline text)"
    using splitLoop_lines [OF _ loop] by (simp add: split_lines_no_sep)
  then have l: "nonblank (linesOf (splitMessage text m)) = nonblank (split newline text)"
    by (cases "cur = []") (simp_all add: out linesOf_append linesOf_single nonblank_def)
  have j: "join (splitMessage text m) [newline] = text"
    if ne: "\<forall>l\<in>set (split newline text). l \<noteq> []"
  proof -
    obtain l ls where ls: "split newline text = l # ls"
      by (cases "split newline text") auto
    have "l \<noteq> []" and "int (length l) < m" using ne assms(2) ls by auto
    then have "splitLoop m [] l ls = (chunks, cur)"
      using loop ls by simp
    then have "cur \<noteq> [] \<and> join (chunks @ [cur]) [newline] =
        join ([] @ [l]) [newline] @ concat (map (\<lambda>l. newline # l) ls)"
      using splitLoop_join [of l ls m "[]" chunks cur] \<open>l \<noteq> []\<close> ne ls by simp
    then have "join (splitMessage text m) [newline] = join (l # ls) [newline]"
      by (simp add: out join_concat)
    then show ?thesis
      using join_split [of newline "text"] ls by simp
  qed
  have "\<forall>c\<in>set (splitMessage text m). int (length c) \<le> m \<and> c \<noteq> []"
    using b by (simp add: out)
  then show ?thesis using l j by blast
qed



theorem splitMessage_chunks_witness:
  "(0::int) < 5
   \<and> split newline threeLines = [ascii ''ab'', ascii ''cd'', ascii ''xy'']
   \<and> splitMessage threeLines 5 = [ascii ''ab'' @ [newline] @ ascii ''cd'', ascii ''xy'']
   \<and> join (splitMessage threeLines 5) [newline] = threeLines"
proof -
  have h: "\<forall>l\<in>set (split newline threeLines). int (length l) < 5"
    by (simp add: split_threeLines ascii_def)
  have ne: "\<forall>l\<in>set (split newline threeLines). l \<noteq> []"
    by (simp add: split_threeLines ascii_def)
  have "join (splitMessage threeLines 5) [newline] = threeLines"
    using splitMessage_chunks [of 5 threeLines] h ne by simp
  moreover have "splitMessage threeLines 5 = [ascii ''ab'' @ [newline] @ ascii ''cd'', ascii ''xy'']"
    by code_simp
  ultimately show ?thesis using split_threeLines by simp
qed

text \<open>
  C10 as stated fails on a text that starts with an empty line: every line is shorter than
  10, yet the chunks joined by a newline are not the text, because a line appended to an
  empty \<open>currentChunk\<close> gets no separator.
\<close>

theorem splitMessage_join_counterexample:
  "(0::int) < 10
   \<and> split newline blankFirst = [[], ascii ''abc'']
   \<and> int (length ([] :: jsstring)) < 10 \<and> int (length (ascii ''abc'')) < 10
   \<and> splitMessage blankFirst 10 = [ascii ''abc'']
   \<and> join (splitMessage blankFirst 10) [newline] = ascii ''abc''
   \<and> ascii ''abc'' \<noteq> blankFirst"
  by (simp add: split_blankFirst splitMessage_blankFirst) (simp add: ascii_def blankFirst_def)

section \<open>Properties of the assembled context\<close>

lemma unat_digit: "d < 10 \<Longrightarrow> unat (digit d) = 48 + d"
  unfolding digit_def by (rule of_nat_inverse [OF refl]) simp

lemma parseNat_snoc: "parseNat (ds @ [d]) = 10 * parseNat ds + (unat d - 48)"
  by (simp add: parseNat_def)

lemma parseNat_toStringNat: "parseNat (toStringNat n) = n"
proof (induction n rule: toStringNat.induct)
  case (1 n)
  show ?case
  proof (cases "n < 10")
    case True
    then show ?thesis
      by (simp add: toStringNat.simps [of n] parseNat_def unat_digit)
  next
    case False
    have "unat (digit (n mod 10)) = 48 + n mod 10"
      by (rule unat_digit) simp
    then show ?thesis
      using False 1 by (simp add: toStringNat.simps [of n] parseNat_snoc)
  qed
qed

lemma mapi_nth: "mapi f xs = map (\<lambda>i. f (xs ! i) i) [0..<length xs]"
  by (rule nth_equalityI) (simp_all add: mapi_def)

lemma join_at:
  "i < length ps \<Longrightarrow>
   join ps sep =
     concat (map (\<lambda>p. p @ sep) (take i ps)) @ ps ! i @ concat (map (\<lambda>p. sep @ p) (drop (Suc i) ps))"
proof (induction ps arbitrary: i)
  case Nil
  then show ?case by simp
next
  case (Cons p ps)
  show ?case
  proof (cases i)
    case 0
    have "join (p # ps) sep = p @ concat (map (\<lambda>p. sep @ p) ps)"
      by (induction ps arbitrary: p) simp_all
    then show ?thesis using 0 by simp
  next
    case (Suc j)
    then have "j < length ps" using Cons.prems by simp
    then have "ps \<noteq> []" by auto
    then show ?thesis
      using Suc Cons.IH [OF \<open>j < length ps\<close>] by (simp add: join_Cons)
  qed
qed

lemma buildContext_at:
  assumes "i < length chunks"
  shows "buildContext chunks =
     concat (map (\<lambda>j. passage (chunks ! j) j @ separator) [0..<i]) @
     passage (chunks ! i) i @
     concat (map (\<lambda>j. separator @ passage (chunks ! j) j) [Suc i..<length chunks])"
proof -
  let ?g = "\<lambda>j. passage (chunks ! j) j"
  have "take i (map ?g [0..<length chunks]) = map ?g [0..<i]"
    using assms by (simp add: take_map min_def)
  moreover have "drop (Suc i) (map ?g [0..<length chunks]) = map ?g [Suc i..<length chunks]"
    by (simp add: drop_map)
  ultimately show ?thesis
    using join_at [of i "map ?g [0..<length chunks]" separator] assms
    by (simp add: buildContext_def mapi_nth comp_def del: upt_Suc)
qed


lemma length_join_sum: "sum_list (map length ps) \<le> length (join ps sep)"
  by (induction ps sep rule: join.induct) auto

lemma length_text_le_passage: "length (text' c) \<le> length (passage c i)"
  by (simp add: passage_def)

lemma sum_text_le_buildContext:
  "sum_list (map (\<lambda>c. length (text' c)) chunks) \<le> length (buildContext chunks)"
proof -
  have "map (\<lambda>c. length (text' c)) chunks =
      map (\<lambda>i. length (text' (chunks ! i))) [0..<length chunks]"
    by (rule nth_equalityI) simp_all
  then have "sum_list (map (\<lambda>c. length (text' c)) chunks) \<le>
      sum_list (map (\<lambda>i. length (passage (chunks ! i) i)) [0..<length chunks])"
    by (simp add: sum_list_mono length_text_le_passage)
  also have "\<dots> = sum_list (map length (mapi passage chunks))"
    by (simp add: mapi_nth comp_def)
  also have "\<dots> \<le> length (buildContext chunks)"
    unfolding buildContext_def by (rule length_join_sum)
  finally show ?thesis .
qed

subsection \<open>The example evaluated\<close>

lemma sys0: "systemPrompt (ascii ''P'') [c1, c2] = sys0"
  by code_simp

lemma passage0: "passage c1 0 = ascii ''[1] From \"s1\":'' @ [0x0A] @ ascii ''aa''"
  by code_simp

lemma passage1: "passage c2 (Suc 0) = ascii ''[2] From \"s2\":'' @ [0x0A] @ ascii ''bb''"
  by code_simp

lemma context_c12: "buildContext [c12] = buildContext [c1, c2]"
  by code_simp

text \<open>
  C3 (as amended). The context is the passages of the results in ranked order joined by
  the separator: the passage of the result at position \<open>i\<close> (from 0) stands after the
  passages of the
  results before it, each followed by the separator, and before those of the results after
  it, each preceded by the separator. That passage starts with the decimal numeral of
  \<open>i + 1\<close> in brackets and the source name in quotes and ends with the result's text. The
  separator is the fixed string of two newlines, three hyphens and two newlines.
\<close>

theorem buildContext_ranked:
  "buildContext chunks =
       join (map (\<lambda>i. passage (chunks ! i) i) [0..<length chunks]) separator
   \<and> (\<forall>i<length chunks.
         buildContext chunks =
           concat (map (\<lambda>j. passage (chunks ! j) j @ separator) [0..<i]) @
           passage (chunks ! i) i @
           concat (map (\<lambda>j. separator @ passage (chunks ! j) j) [Suc i..<length chunks])
         \<and> passage (chunks ! i) i =
           ascii ''['' @ toStringNat (i + 1) @ ascii ''] From \"'' @ source (chunks ! i) @
           ascii ''\":'' @ [0x0A] @ text' (chunks ! i)
         \<and> parseNat (toStringNat (i + 1)) = i + 1)
   \<and> separator = [0x0A, 0x0A, 0x2D, 0x2D, 0x2D, 0x0A, 0x0A]"
proof (intro conjI allI impI)
  show "buildContext chunks =
       join (map (\<lambda>i. passage (chunks ! i) i) [0..<length chunks]) separator"
    by (simp add: buildContext_def mapi_nth)
  show "separator = [0x0A, 0x0A, 0x2D, 0x2D, 0x2D, 0x0A, 0x0A]"
    by (simp add: separator_def newline_def ascii_def)
next
  fix i
  assume "i < length chunks"
  then show "buildContext chunks =
           concat (map (\<lambda>j. passage (chunks ! j) j @ separator) [0..<i]) @
           passage (chunks ! i) i @
           concat (map (\<lambda>j. separator @ passage (chunks ! j) j) [Suc i..<length chunks])"
    by (rule buildContext_at)
  show "passage (chunks ! i) i =
           ascii ''['' @ toStringNat (i + 1) @ ascii ''] From \"'' @ source (chunks ! i) @
           ascii ''\":'' @ [0x0A] @ text' (chunks ! i)"
    by (simp add: passage_def newline_def)
  show "parseNat (toStringNat (i + 1)) = i + 1"
    by (rule parseNat_toStringNat)
qed


theorem buildContext_ranked_witness:
  "(1 :: nat) < length [c1, c2]
   \<and> buildContext [c1, c2] =
       (ascii ''[1] From \"s1\":'' @ [0x0A] @ ascii ''aa'') @ separator @
       (ascii ''[2] From \"s2\":'' @ [0x0A] @ ascii ''bb'')
   \<and> parseNat (toStringNat 2) = 2"
proof -
  have len: "(1 :: nat) < length [c1, c2]" by simp
  have "buildContext [c1, c2] =
      concat (map (\<lambda>j. passage ([c1, c2] ! j) j @ separator) [0..<1]) @
      passage ([c1, c2] ! 1) 1 @
      concat (map (\<lambda>j. separator @ passage ([c1, c2] ! j) j) [Suc 1..<length [c1, c2]])
      \<and> parseNat (toStringNat (1 + 1)) = 1 + 1"
    using buildContext_ranked [of "[c1, c2]"] len by blast
  then have "buildContext [c1, c2] = (passage c1 0 @ separator) @ passage c2 (Suc 0)
      \<and> parseNat (toStringNat 2) = 2"
    by (simp add: numeral_2_eq_2)
  then show ?thesis
    by (simp only: passage0 passage1 len append_assoc simp_thms)
qed

text \<open>
  C3 as stated fails in its conclusion: the texts are copied as they are, so a single
  result whose text holds the separator and the label of a second passage gives the same
  context as two results, and the passages cannot be told apart in the output.
\<close>

theorem buildContext_not_injective:
  "buildContext [c12] = buildContext [c1, c2]
   \<and> length [c12] = 1 \<and> length [c1, c2] = 2 \<and> text' c12 \<noteq> text' c1"
  using context_c12 by (simp add: c12_def c1_def ascii_def)

text \<open>
  C2 (as amended). The system prompt is the persona text, the fixed header and the context
  of all results: the persona text comes first, the whole passage of every result is in
  it, and it is at least as long as the persona text and the texts of all results
  together. Nothing is dropped and nothing is cut.
\<close>

theorem systemPrompt_keeps_every_result:
  "systemPrompt persona chunks = persona @ contextHeader @ buildContext chunks
   \<and> (\<forall>i<length chunks. \<exists>pre post.
         systemPrompt persona chunks = persona @ pre @ passage (chunks ! i) i @ post)
   \<and> length persona + sum_list (map (\<lambda>c. length (text' c)) chunks)
         \<le> length (systemPrompt persona chunks)"
proof (intro conjI allI impI)
  show "systemPrompt persona chunks = persona @ contextHeader @ buildContext chunks"
    by (simp add: systemPrompt_def)
next
  fix i
  assume "i < length chunks"
  from buildContext_at [OF this]
  have "systemPrompt persona chunks =
      persona @ (contextHeader @ concat (map (\<lambda>j. passage (chunks ! j) j @ separator) [0..<i])) @
      passage (chunks ! i) i @
      concat (map (\<lambda>j. separator @ passage (chunks ! j) j) [Suc i..<length chunks])"
    by (simp add: systemPrompt_def)
  then show "\<exists>pre post.
      systemPrompt persona chunks = persona @ pre @ passage (chunks ! i) i @ post"
    by blast
next
  show "length persona + sum_list (map (\<lambda>c. length (text' c)) chunks)
      \<le> length (systemPrompt persona chunks)"
    using sum_text_le_buildContext [of chunks] by (simp add: systemPrompt_def)
qed

theorem systemPrompt_keeps_every_result_witness:
  "(1 :: nat) < length [c1, c2]
   \<and> (\<exists>pre post. sys0 = ascii ''P'' @ pre @
         (ascii ''[2] From \"s2\":'' @ [0x0A] @ ascii ''bb'') @ post)
   \<and> length (ascii ''P'') + (length (ascii ''aa'') + length (ascii ''bb'')) \<le> length sys0"
proof -
  have len: "(1 :: nat) < length [c1, c2]" by simp
  have nth: "[c1, c2] ! Suc 0 = c2" by simp
  have "\<exists>pre post. systemPrompt (ascii ''P'') [c1, c2] =
      ascii ''P'' @ pre @ passage ([c1, c2] ! 1) 1 @ post"
    using systemPrompt_keeps_every_result [of "ascii ''P''" "[c1, c2]"] len by blast
  then have a: "\<exists>pre post. sys0 = ascii ''P'' @ pre @
         (ascii ''[2] From \"s2\":'' @ [0x0A] @ ascii ''bb'') @ post"
    unfolding sys0 One_nat_def nth passage1 .
  have "length (ascii ''P'') + sum_list (map (\<lambda>c. length (text' c)) [c1, c2])
      \<le> length (systemPrompt (ascii ''P'') [c1, c2])"
    using systemPrompt_keeps_every_result [of "ascii ''P''" "[c1, c2]"] by blast
  moreover have "sum_list (map (\<lambda>c. length (text' c)) [c1, c2]) =
      length (ascii ''aa'') + length (ascii ''bb'')"
    by (simp add: c1_def c2_def)
  ultimately have b: "length (ascii ''P'') + (length (ascii ''aa'') + length (ascii ''bb''))
      \<le> length sys0"
    unfolding sys0 by simp
  from len a b show ?thesis by blast
qed


text \<open>
  C2 as stated fails: whatever the persona text, no size bounds the assembled prompt over
  all result lists, since a result with a longer text makes a longer prompt.
\<close>

theorem systemPrompt_no_size_limit:
  "\<forall>persona. \<not> (\<exists>limit. \<forall>chunks :: unit chunk list.
        length (systemPrompt persona chunks) \<le> limit)"
proof (intro allI notI)
  fix persona
  assume "\<exists>limit. \<forall>chunks :: unit chunk list. length (systemPrompt persona chunks) \<le> limit"
  then obtain limit where
    lim: "\<And>chunks :: unit chunk list. length (systemPrompt persona chunks) \<le> limit"
    by blast
  let ?c = "\<lparr>text' = replicate (Suc limit) 0x61, source = [], score = ()\<rparr>"
  have "Suc limit \<le> length (buildContext [?c])"
    using sum_text_le_buildContext [of "[?c]"] by simp
  then have "Suc limit \<le> length (systemPrompt persona [?c])"
    by (simp add: systemPrompt_def)
  then show False
    using lim [of "[?c]"] by simp
qed

section \<open>Properties of the handlers\<close>

subsection \<open>Sequencing\<close>

lemma andThen_Inl: "andThen (cs, Inl e) f = (cs, Inl e)"
  by (simp add: andThen_def)

lemma andThen_Inr: "andThen (cs, Inr x) f = (cs @ fst (f x), snd (f x))"
  by (simp add: andThen_def split: prod.splits)

lemma tryCatch_Inl: "tryCatch (cs, Inl e) h = (cs @ fst (h e), snd (h e))"
  by (simp add: tryCatch_def split: prod.splits)

lemma tryCatch_Inr: "tryCatch (cs, Inr x) h = (cs, Inr x)"
  by (simp add: tryCatch_def)

lemmas io_simps = andThen_Inl andThen_Inr tryCatch_Inl tryCatch_Inr perform_def pure_def throw_def

lemma fst_andThen:
  "fst (andThen m f) = fst m @ (case snd m of Inl e \<Rightarrow> [] | Inr x \<Rightarrow> fst (f x))"
  by (simp add: andThen_def split: prod.splits sum.splits)

lemma fst_tryCatch:
  "fst (tryCatch m h) = fst m @ (case snd m of Inl e \<Rightarrow> fst (h e) | Inr x \<Rightarrow> [])"
  by (simp add: tryCatch_def split: prod.splits sum.splits)

subsection \<open>Calls that are neither retrieval nor completion\<close>

lemma quiet_Nil: "quiet []"
  by (simp add: quiet_def)

lemma quiet_append: "quiet (a @ b) = (quiet a \<and> quiet b)"
  by (auto simp: quiet_def)

lemma quiet_andThen: "quiet (fst m) \<Longrightarrow> (\<And>x. quiet (fst (f x))) \<Longrightarrow> quiet (fst (andThen m f))"
  by (simp add: fst_andThen quiet_append quiet_Nil split: sum.splits)

lemma quiet_tryCatch: "quiet (fst m) \<Longrightarrow> (\<And>e. quiet (fst (h e))) \<Longrightarrow> quiet (fst (tryCatch m h))"
  by (simp add: fst_tryCatch quiet_append quiet_Nil split: sum.splits)

lemma quiet_edit: "quiet (fst (edit w ctx mid t))"
  by (simp add: edit_def quiet_def io_simps split: option.splits)

lemma quiet_streamLoop: "quiet (fst (streamLoop w ctx mid frs st))"
proof (induction w ctx mid frs st rule: streamLoop.induct)
  case (1 w ctx mid st)
  show ?case by (simp add: quiet_Nil)
next
  case (2 w ctx mid chunk rest fullResponse updateCounter buffer)
  have "quiet (fst (tryCatch (edit w ctx mid t) (\<lambda>error. perform (ConsoleLog l) (Inr ()))))" for t l
    by (intro quiet_tryCatch quiet_edit) (simp add: perform_def quiet_def)
  then show ?case
    using 2 by (simp add: Let_def quiet_append quiet_Nil)
qed


lemma quiet_consume: "quiet (fst (consume w ctx mid result))"
  by (simp add: consume_def Let_def quiet_streamLoop)

lemma quiet_finalUpdate: "quiet (fst (finalUpdate w ctx mid t))"
  unfolding finalUpdate_def
  by (intro quiet_tryCatch quiet_andThen quiet_edit) (simp_all add: perform_def pure_def quiet_def)


lemma quiet_Cons:
  "quiet (c # cs) =
     ((case c of Retrieve q k \<Rightarrow> False | StreamText sys ms \<Rightarrow> False | _ \<Rightarrow> True) \<and> quiet cs)"
  by (simp add: quiet_def)

lemma quiet_no_StreamText: "quiet cs \<Longrightarrow> StreamText sys ms \<notin> set cs"
  by (auto simp: quiet_def)

lemma quiet_no_Retrieve: "quiet cs \<Longrightarrow> Retrieve q k \<notin> set cs"
  by (auto simp: quiet_def)

subsection \<open>The examples evaluated\<close>


lemma trace0: "fst (snd (handleQuestion w0 ctx0 q0 Map.empty)) =
    [SendChatAction (ascii ''typing''), Retrieve q0 20] @
    StreamText sys0 [m0] #
    [Reply (dizzy @ ascii '' ...''), EditMessageText 9 7 (dizzy @ ascii '' Hi. Yes. No....''),
     EditMessageText 9 7 full0, Reply full0]"
  by code_simp




lemma allowed0: "fst (checkRateLimit (Date_now w0) (toString (userIdOf ctx0)) Map.empty)"
  by (simp add: checkRateLimit_def validRequests_def userRequests_def MAX_REQUESTS_def)

lemma world0:
  "sendChatAction w0 (ascii ''typing'') = Inr ()"
  "truthy (openRouterApiKey (getAIConfig w0))"
  "truthy (googleGenerativeAIApiKey (getAIConfig w0))"
  "streamText w0 sys [\<lparr>role = ascii ''user'', content = q0\<rparr>] = Inr result0"
  "failure result0 = None"
  "reply w0 t = Inr 7"
  "CYBERTANTRA_SYSTEM_PROMPT w0 = ascii ''P''"
  by (simp_all add: w0_def truthy_def ascii_def result0_def)




lemma post_trace0:
  "fst (POST w0 (Inr (Some [m0]))) = [Retrieve q0 10, StreamText sys0 [m0]]"
  by code_simp





subsection \<open>The order of retrieval and completion\<close>

lemma only_StreamText:
  assumes "\<And>s m. StreamText s m \<notin> set xs" and "\<And>s m. StreamText s m \<notin> set ys"
    and "xs @ StreamText sys ms # ys = pre @ StreamText sys' ms' # post"
  shows "pre = xs \<and> sys' = sys \<and> ms' = ms \<and> post = ys"
  using assms
proof (induction xs arbitrary: pre)
  case Nil
  then show ?case by (cases pre) auto
next
  case (Cons x xs)
  show ?case
  proof (cases pre)
    case Nil
    then show ?thesis using Cons.prems by auto
  next
    case (Cons p pre')
    then show ?thesis using Cons.IH [of pre'] Cons.prems by auto
  qed
qed

lemma answer_shape:
  "fst (answer w ctx q) = []
   \<or> (fst (answer w ctx q) = [Retrieve q 20] \<and> (\<exists>e. retrieve w q 20 = Inl e))
   \<or> (\<exists>chunks post. retrieve w q 20 = Inr chunks \<and> quiet post \<and>
        fst (answer w ctx q) =
          Retrieve q 20 #
          StreamText (systemPrompt (CYBERTANTRA_SYSTEM_PROMPT w) chunks)
            [\<lparr>role = ascii ''user'', content = q\<rparr>] # post)"
proof (cases "retrieve w q 20")
  case (Inl e)
  then show ?thesis
    by (simp add: answer_def requireKeys_def fst_andThen io_simps)
next
  case (Inr chunks)
  let ?sys = "systemPrompt (CYBERTANTRA_SYSTEM_PROMPT w) chunks"
  let ?ms = "[\<lparr>role = ascii ''user'', content = q\<rparr>]"
  let ?rest = "\<lambda>result. andThen (perform (Reply (dizzy @ ascii '' ...'')) (reply w (dizzy @ ascii '' ...'')))
       (\<lambda>message_id.
     andThen (consume w ctx message_id result) (\<lambda>fullResponse.
     finalUpdate w ctx message_id (addSources w chunks fullResponse)))"
  have q: "quiet (fst (andThen (perform (StreamText ?sys ?ms) (streamText w ?sys ?ms)) ?rest)) = False"
    by (simp add: fst_andThen perform_def quiet_Cons)
  have rest: "quiet (fst (?rest result))" for result
    by (intro quiet_andThen quiet_consume quiet_finalUpdate) (simp add: perform_def quiet_def)
  have "\<exists>post. quiet post \<and>
      fst (andThen (perform (StreamText ?sys ?ms) (streamText w ?sys ?ms)) ?rest) =
        StreamText ?sys ?ms # post"
    using rest by (auto simp: fst_andThen perform_def quiet_Nil split: sum.splits)
  then show ?thesis
    using Inr by (auto simp: answer_def requireKeys_def fst_andThen io_simps Let_def)
qed


lemma shaped_answer:
  "shaped (fst (answer w ctx q)) q 20 (retrieve w q 20) (CYBERTANTRA_SYSTEM_PROMPT w)
     [\<lparr>role = ascii ''user'', content = q\<rparr>]"
proof -
  consider
    (none) "fst (answer w ctx q) = []"
  | (failed) "fst (answer w ctx q) = [] @ Retrieve q 20 # []" "\<exists>e. retrieve w q 20 = Inl e"
  | (both) chunks post where "retrieve w q 20 = Inr chunks" "quiet post"
      "fst (answer w ctx q) = [] @ Retrieve q 20 #
         StreamText (systemPrompt (CYBERTANTRA_SYSTEM_PROMPT w) chunks)
           [\<lparr>role = ascii ''user'', content = q\<rparr>] # post"
    using answer_shape [of w ctx q] by auto
  then show ?thesis
  proof cases
    case none
    then show ?thesis unfolding shaped_def using quiet_Nil by blast
  next
    case failed
    then show ?thesis unfolding shaped_def using quiet_Nil by blast
  next
    case both
    then show ?thesis unfolding shaped_def using quiet_Nil by blast
  qed
qed

lemma shaped_wrap:
  assumes "shaped cs q k outcome persona ms" and "quiet A" and "quiet B"
  shows "shaped (A @ cs @ B) q k outcome persona ms"
proof -
  obtain A' B' where q: "quiet A'" "quiet B'"
    and c: "cs = A' \<or> (cs = A' @ Retrieve q k # B' \<and> (\<exists>e. outcome = Inl e))
         \<or> (\<exists>chunks. outcome = Inr chunks \<and>
               cs = A' @ Retrieve q k # StreamText (systemPrompt persona chunks) ms # B')"
    using assms(1) unfolding shaped_def by blast
  have qa: "quiet (A @ A')" and qb: "quiet (B' @ B)" and qc: "quiet (A @ A' @ B)"
    using q assms(2,3) by (simp_all add: quiet_append)
  from c consider "cs = A'" | "cs = A' @ Retrieve q k # B'" "\<exists>e. outcome = Inl e"
    | chunks where "outcome = Inr chunks"
        "cs = A' @ Retrieve q k # StreamText (systemPrompt persona chunks) ms # B'"
    by blast
  then show ?thesis
  proof cases
    case 1
    then have "A @ cs @ B = A @ A' @ B" by simp
    then show ?thesis unfolding shaped_def using qc quiet_Nil by blast
  next
    case 2
    then have "A @ cs @ B = (A @ A') @ Retrieve q k # (B' @ B)" by simp
    then show ?thesis unfolding shaped_def using qa qb 2(2) by blast
  next
    case 3
    then have "A @ cs @ B =
        (A @ A') @ Retrieve q k # StreamText (systemPrompt persona chunks) ms # (B' @ B)"
      by simp
    then show ?thesis unfolding shaped_def using qa qb 3(1) by blast
  qed
qed

lemma shaped_quiet: "quiet cs \<Longrightarrow> shaped cs q k outcome persona ms"
  unfolding shaped_def using quiet_Nil by blast

lemma shaped_stream:
  assumes "shaped cs q k outcome persona ms" and "cs = pre @ StreamText sys' ms' # post"
  shows "\<exists>pre' chunks. pre = pre' @ [Retrieve q k] \<and> outcome = Inr chunks \<and>
     sys' = systemPrompt persona chunks \<and> ms' = ms \<and> quiet pre' \<and> quiet post"
proof -
  obtain A B where q: "quiet A" "quiet B"
    and c: "cs = A \<or> (cs = A @ Retrieve q k # B \<and> (\<exists>e. outcome = Inl e))
         \<or> (\<exists>chunks. outcome = Inr chunks \<and>
               cs = A @ Retrieve q k # StreamText (systemPrompt persona chunks) ms # B)"
    using assms(1) unfolding shaped_def by blast
  have mem: "StreamText sys' ms' \<in> set cs" using assms(2) by simp
  from c consider "cs = A" | "cs = A @ Retrieve q k # B"
    | chunks where "outcome = Inr chunks"
        "cs = A @ Retrieve q k # StreamText (systemPrompt persona chunks) ms # B"
    by blast
  then show ?thesis
  proof cases
    case 1
    then show ?thesis using mem q quiet_no_StreamText by blast
  next
    case 2
    then show ?thesis using mem q quiet_no_StreamText [of A] quiet_no_StreamText [of B] by auto
  next
    case 3
    have "\<And>s m. StreamText s m \<notin> set (A @ [Retrieve q k])"
      using q(1) quiet_no_StreamText [of A] by auto
    moreover have "\<And>s m. StreamText s m \<notin> set B"
      using q(2) quiet_no_StreamText [of B] by auto
    moreover have "(A @ [Retrieve q k]) @ StreamText (systemPrompt persona chunks) ms # B =
        pre @ StreamText sys' ms' # post"
      using 3(2) assms(2) by simp
    ultimately have "pre = A @ [Retrieve q k] \<and> sys' = systemPrompt persona chunks \<and>
        ms' = ms \<and> post = B"
      by (rule only_StreamText)
    then show ?thesis using 3(1) q by blast
  qed
qed

lemma shaped_retrieve:
  assumes "shaped cs q k outcome persona ms" and "Retrieve q' k' \<in> set cs"
  shows "q' = q \<and> k' = k"
proof -
  obtain A B where q: "quiet A" "quiet B"
    and c: "cs = A \<or> (cs = A @ Retrieve q k # B \<and> (\<exists>e. outcome = Inl e))
         \<or> (\<exists>chunks. outcome = Inr chunks \<and>
               cs = A @ Retrieve q k # StreamText (systemPrompt persona chunks) ms # B)"
    using assms(1) unfolding shaped_def by blast
  have "Retrieve q' k' \<notin> set A" "Retrieve q' k' \<notin> set B"
    using q quiet_no_Retrieve by blast+
  then show ?thesis using c assms(2) by auto
qed

lemma handleQuestion_calls:
  "fst (snd (handleQuestion w ctx q rl)) =
     (if \<not> fst (checkRateLimit (Date_now w) (toString (userIdOf ctx)) rl)
      then [Reply rateLimitMessage]
      else SendChatAction (ascii ''typing'') #
        (case sendChatAction w (ascii ''typing'') of
           Inl e \<Rightarrow> []
         | Inr u \<Rightarrow> fst (answer w ctx q) @
             (case snd (answer w ctx q) of
                Inl e \<Rightarrow> [ConsoleError (ascii ''Error handling question:'') e, Reply errorMessage]
              | Inr u \<Rightarrow> [])))"
  by (simp add: handleQuestion_def Let_def fst_andThen fst_tryCatch io_simps split: sum.splits)

lemma shaped_handleQuestion:
  "shaped (fst (snd (handleQuestion w ctx q rl))) q 20 (retrieve w q 20)
     (CYBERTANTRA_SYSTEM_PROMPT w) [\<lparr>role = ascii ''user'', content = q\<rparr>]"
proof -
  let ?ms = "[\<lparr>role = ascii ''user'', content = q\<rparr>]"
  let ?S = "\<lambda>cs. shaped cs q 20 (retrieve w q 20) (CYBERTANTRA_SYSTEM_PROMPT w) ?ms"
  have wrap: "?S ([SendChatAction (ascii ''typing'')] @ fst (answer w ctx q) @ B)" if "quiet B" for B
    by (rule shaped_wrap [OF shaped_answer _ that]) (simp add: quiet_def)
  have "?S ([SendChatAction (ascii ''typing'')] @ fst (answer w ctx q) @ [])"
    by (rule wrap) (simp add: quiet_def)
  moreover have "?S ([SendChatAction (ascii ''typing'')] @ fst (answer w ctx q) @
      [ConsoleError (ascii ''Error handling question:'') e, Reply errorMessage])" for e
    by (rule wrap) (simp add: quiet_def)
  moreover have "?S [Reply rateLimitMessage]" "?S [SendChatAction (ascii ''typing'')]"
    by (rule shaped_quiet, simp add: quiet_def)+
  ultimately show ?thesis
    by (simp add: handleQuestion_calls split: sum.splits)
qed


lemma shaped_chat:
  "shaped (fst (chat w ms)) (content (last ms)) 10 (retrieve w (content (last ms)) 10)
     (CYBERTANTRA_SYSTEM_PROMPT w) ms"
proof (cases "truthy (openRouterApiKey (getAIConfig w)) \<and>
    truthy (googleGenerativeAIApiKey (getAIConfig w))")
  case False
  then have "fst (chat w ms) = []"
    by (auto simp: chat_def requireKeys_def fst_andThen io_simps)
  then show ?thesis by (simp add: shaped_quiet quiet_Nil)
next
  case True
  let ?q = "content (last ms)"
  show ?thesis
  proof (cases "retrieve w ?q 10")
    case (Inl e)
    then have "fst (chat w ms) = [] @ Retrieve ?q 10 # []"
      using True by (simp add: chat_def requireKeys_def fst_andThen io_simps Let_def)
    then show ?thesis unfolding shaped_def using Inl quiet_Nil by blast
  next
    case (Inr chunks)
    then have "fst (chat w ms) =
        [] @ Retrieve ?q 10 # StreamText (systemPrompt (CYBERTANTRA_SYSTEM_PROMPT w) chunks) ms # []"
      using True
      by (simp add: chat_def requireKeys_def fst_andThen io_simps Let_def split: sum.splits)
    then show ?thesis unfolding shaped_def using Inr quiet_Nil by blast
  qed
qed

lemma POST_calls:
  "fst (POST w (Inr (Some (m # ms)))) =
     fst (chat w (m # ms)) @
     (case snd (chat w (m # ms)) of
        Inl e \<Rightarrow> [ConsoleError (ascii ''Chat error:'') e]
      | Inr r \<Rightarrow> [])"
  by (simp add: POST_def fst_andThen fst_tryCatch io_simps split: sum.splits)

lemma POST_no_calls:
  "req = Inl e \<or> req = Inr None \<or> req = Inr (Some []) \<Longrightarrow> fst (POST w req) = []"
  by (auto simp: POST_def io_simps)

lemma shaped_POST:
  "shaped (fst (POST w (Inr (Some (m # ms))))) (content (last (m # ms))) 10
     (retrieve w (content (last (m # ms))) 10) (CYBERTANTRA_SYSTEM_PROMPT w) (m # ms)"
proof -
  have "shaped ([] @ fst (chat w (m # ms)) @ B) (content (last (m # ms))) 10
     (retrieve w (content (last (m # ms))) 10) (CYBERTANTRA_SYSTEM_PROMPT w) (m # ms)"
    if "quiet B" for B
    by (rule shaped_wrap [OF shaped_chat quiet_Nil that])
  from this [of "[]"] this [of "[ConsoleError (ascii ''Chat error:'') e]" for e]
  show ?thesis
    by (cases "snd (chat w (m # ms))") (simp_all add: POST_calls quiet_def del: last.simps)
qed

text \<open>
  C4. In the calls of either handler, a completion call comes directly after the retrieval
  call of the same query, that retrieval has resolved with the results from which the
  completion's system prompt is built, and no other retrieval or completion call is made
  before or after.
\<close>

theorem retrieval_before_completion:
  "(fst (snd (handleQuestion w ctx q rl)) = pre @ StreamText sys ms # post \<longrightarrow>
      (\<exists>pre' chunks. pre = pre' @ [Retrieve q 20] \<and> retrieve w q 20 = Inr chunks \<and>
         sys = systemPrompt (CYBERTANTRA_SYSTEM_PROMPT w) chunks \<and> quiet pre' \<and> quiet post))
   \<and> (fst (POST w req) = pre @ StreamText sys ms # post \<longrightarrow>
      (\<exists>pre' chunks. req = Inr (Some ms) \<and> ms \<noteq> [] \<and>
         pre = pre' @ [Retrieve (content (last ms)) 10] \<and>
         retrieve w (content (last ms)) 10 = Inr chunks \<and>
         sys = systemPrompt (CYBERTANTRA_SYSTEM_PROMPT w) chunks \<and> quiet pre' \<and> quiet post))"
proof (intro conjI impI)
  assume "fst (snd (handleQuestion w ctx q rl)) = pre @ StreamText sys ms # post"
  from shaped_stream [OF shaped_handleQuestion this]
  show "\<exists>pre' chunks. pre = pre' @ [Retrieve q 20] \<and> retrieve w q 20 = Inr chunks \<and>
         sys = systemPrompt (CYBERTANTRA_SYSTEM_PROMPT w) chunks \<and> quiet pre' \<and> quiet post"
    by blast
next
  assume tr: "fst (POST w req) = pre @ StreamText sys ms # post"
  then have "fst (POST w req) \<noteq> []" by simp
  then obtain m ms' where req: "req = Inr (Some (m # ms'))"
    using POST_no_calls [of req _ w]
    by (cases req rule: sum.exhaust; cases "projr req"; cases "the (projr req)") auto
  from shaped_stream [OF shaped_POST [of w m ms']] tr req
  show "\<exists>pre' chunks. req = Inr (Some ms) \<and> ms \<noteq> [] \<and>
         pre = pre' @ [Retrieve (content (last ms)) 10] \<and>
         retrieve w (content (last ms)) 10 = Inr chunks \<and>
         sys = systemPrompt (CYBERTANTRA_SYSTEM_PROMPT w) chunks \<and> quiet pre' \<and> quiet post"
    by blast
qed

theorem retrieval_before_completion_witness:
  "fst (snd (handleQuestion w0 ctx0 q0 Map.empty)) =
     [SendChatAction (ascii ''typing''), Retrieve q0 20] @
     StreamText sys0 [m0] #
     [Reply (dizzy @ ascii '' ...''), EditMessageText 9 7 (dizzy @ ascii '' Hi. Yes. No....''),
      EditMessageText 9 7 full0, Reply full0]
   \<and> (\<exists>pre' chunks.
         [SendChatAction (ascii ''typing''), Retrieve q0 20] = pre' @ [Retrieve q0 20] \<and>
         retrieve w0 q0 20 = Inr chunks \<and>
         sys0 = systemPrompt (CYBERTANTRA_SYSTEM_PROMPT w0) chunks \<and> quiet pre' \<and>
         quiet [Reply (dizzy @ ascii '' ...''),
           EditMessageText 9 7 (dizzy @ ascii '' Hi. Yes. No....''),
           EditMessageText 9 7 full0, Reply full0])"
  using trace0 retrieval_before_completion
    [of w0 ctx0 q0 Map.empty "[SendChatAction (ascii ''typing''), Retrieve q0 20]" sys0 "[m0]"]
  by blast

subsection \<open>The retrieval count\<close>

lemma answer_retrieves:
  "truthy (openRouterApiKey (getAIConfig w)) \<Longrightarrow>
   truthy (googleGenerativeAIApiKey (getAIConfig w)) \<Longrightarrow>
   Retrieve q 20 \<in> set (fst (answer w ctx q))"
  by (simp add: answer_def requireKeys_def fst_andThen io_simps)

lemma chat_retrieves:
  "truthy (openRouterApiKey (getAIConfig w)) \<Longrightarrow>
   truthy (googleGenerativeAIApiKey (getAIConfig w)) \<Longrightarrow>
   Retrieve (content (last ms)) 10 \<in> set (fst (chat w ms))"
  by (simp add: chat_def requireKeys_def fst_andThen io_simps Let_def)

lemma POST_calls_messages:
  assumes "fst (POST w req) \<noteq> []"
  shows "\<exists>m ms. req = Inr (Some (m # ms))"
proof (cases req)
  case (Inl e)
  then show ?thesis using assms POST_no_calls [of req e w] by simp
next
  case (Inr body)
  show ?thesis
  proof (cases body)
    case None
    then show ?thesis using assms Inr POST_no_calls [of req undefined w] by simp
  next
    case (Some ms)
    then show ?thesis using assms Inr POST_no_calls [of req undefined w] by (cases ms) auto
  qed
qed

text \<open>
  C8. The count is an argument of each retrieval call: every retrieval the bot handler
  makes asks for 20 results and every retrieval the chat route makes asks for 10, the
  smaller number; and each of them makes that call whenever both keys are configured (and,
  for the bot, the caller is not rate-limited and the chat action went through).
\<close>

theorem retrieval_count_per_call_site:
  "(Retrieve q' k \<in> set (fst (snd (handleQuestion w ctx q rl))) \<longrightarrow> q' = q \<and> k = 20)
   \<and> (Retrieve q' k \<in> set (fst (POST w req)) \<longrightarrow>
        k = 10 \<and> (\<exists>ms. req = Inr (Some ms) \<and> ms \<noteq> [] \<and> q' = content (last ms)))
   \<and> (fst (checkRateLimit (Date_now w) (toString (userIdOf ctx)) rl) \<and>
        sendChatAction w (ascii ''typing'') = Inr () \<and>
        truthy (openRouterApiKey (getAIConfig w)) \<and>
        truthy (googleGenerativeAIApiKey (getAIConfig w)) \<longrightarrow>
        Retrieve q 20 \<in> set (fst (snd (handleQuestion w ctx q rl))))
   \<and> (truthy (openRouterApiKey (getAIConfig w)) \<and>
        truthy (googleGenerativeAIApiKey (getAIConfig w)) \<longrightarrow>
        Retrieve (content (last (m # ms))) 10 \<in> set (fst (POST w (Inr (Some (m # ms))))))
   \<and> (10 :: nat) < 20"
proof -
  have bot: "q' = q \<and> k = 20"
    if "Retrieve q' k \<in> set (fst (snd (handleQuestion w ctx q rl)))"
    using shaped_retrieve [OF shaped_handleQuestion that] .
  have web: "k = 10 \<and> (\<exists>ms. req = Inr (Some ms) \<and> ms \<noteq> [] \<and> q' = content (last ms))"
    if mem: "Retrieve q' k \<in> set (fst (POST w req))"
  proof -
    have "fst (POST w req) \<noteq> []" using mem by auto
    then obtain m' ms' where req: "req = Inr (Some (m' # ms'))"
      using POST_calls_messages by blast
    from shaped_retrieve [OF shaped_POST [of w m' ms'], of q' k] mem req
    show ?thesis by blast
  qed
  have bot_does: "Retrieve q 20 \<in> set (fst (snd (handleQuestion w ctx q rl)))"
    if "fst (checkRateLimit (Date_now w) (toString (userIdOf ctx)) rl) \<and>
        sendChatAction w (ascii ''typing'') = Inr () \<and>
        truthy (openRouterApiKey (getAIConfig w)) \<and>
        truthy (googleGenerativeAIApiKey (getAIConfig w))"
    using that answer_retrieves [of w q ctx] by (simp add: handleQuestion_calls)
  have web_does: "Retrieve (content (last (m # ms))) 10 \<in> set (fst (POST w (Inr (Some (m # ms)))))"
    if "truthy (openRouterApiKey (getAIConfig w)) \<and>
        truthy (googleGenerativeAIApiKey (getAIConfig w))"
    using that chat_retrieves [of w "m # ms"] by (simp add: POST_calls del: last.simps)
  have "(10 :: nat) < 20" by simp
  with bot web bot_does web_does show ?thesis by blast
qed

theorem retrieval_count_per_call_site_witness:
  "Retrieve q0 20 \<in> set (fst (snd (handleQuestion w0 ctx0 q0 Map.empty)))
   \<and> Retrieve (content (last [m0])) 10 \<in> set (fst (POST w0 (Inr (Some [m0]))))
   \<and> Retrieve q0 10 \<in> set (fst (POST w0 (Inr (Some [m0]))))
   \<and> (\<exists>ms. (Inr (Some [m0]) :: thrown + message list option) = Inr (Some ms) \<and> ms \<noteq> [] \<and>
         q0 = content (last ms))"
proof -
  have "Retrieve q0 20 \<in> set (fst (snd (handleQuestion w0 ctx0 q0 Map.empty)))"
    using retrieval_count_per_call_site [of _ _ w0 ctx0 q0 Map.empty] allowed0 world0(1,2,3)
    by blast
  moreover have "Retrieve (content (last [m0])) 10 \<in> set (fst (POST w0 (Inr (Some [m0]))))"
    using retrieval_count_per_call_site [of _ _ w0 _ _ _ _ m0 "[]"] world0(2,3) by blast
  moreover have mem: "Retrieve q0 10 \<in> set (fst (POST w0 (Inr (Some [m0]))))"
    by (simp add: post_trace0)
  moreover have "\<exists>ms. (Inr (Some [m0]) :: thrown + message list option) = Inr (Some ms) \<and>
      ms \<noteq> [] \<and> q0 = content (last ms)"
    using retrieval_count_per_call_site [of q0 10 w0 _ _ _ "Inr (Some [m0])"] mem by blast
  ultimately show ?thesis by blast
qed

subsection \<open>A rate-limited question\<close>




subsection \<open>The final edit\<close>










subsection \<open>Failures of the chat route\<close>







end
